theory Spec2Isabelle
  imports Complex_Main
begin

section \<open>Grid value iteration: the \<^verbatim>\<open>train\<close> handler of \<^verbatim>\<open>app.py\<close>\<close>

text \<open>
  The handler reads a grid description, runs value iteration on the grid's deterministic
  decision process, extracts a greedy policy and walks it from the start cell.

  Modelling decisions.
  \<^item> Python's unbounded integers are \<open>int\<close>; a cell \<open>(row, col)\<close> is a pair of them.
  \<^item> Python floats are idealised as \<open>real\<close> (\<open>gamma = 9/10\<close>, \<open>threshold = 1/1000\<close>);
    rounding is not modelled.
  \<^item> The sentinel \<open>float('-inf')\<close> of a running maximum is \<open>None\<close> in a \<open>real option\<close>.
    Storing the sentinel into a value map cannot be written with \<open>real\<close> values; the model
    flags it as \<open>SentinelStored\<close>, and \<open>best_action_value_loop_actions\<close> below shows that
    it never happens (the action list has four elements).
  \<^item> The action codes \<open>'U'\<close>, \<open>'D'\<close>, \<open>'L'\<close>, \<open>'R'\<close> are the constructors of \<open>action\<close>.
  \<^item> A \<open>dict\<close> is a map; a lookup \<open>m[k]\<close> of a missing key is \<open>Inl (KeyError k)\<close>.
  \<^item> The closures \<open>is_valid\<close>, \<open>step\<close> and \<open>valid_for_path\<close> take the variables they capture
    (\<open>gridSize\<close>, \<open>obstacle_set\<close>, \<open>goalState\<close>) as leading arguments.
  \<^item> The bounded \<open>for\<close> loops are structural recursions; the \<open>while True\<close> loop of the
    path walk is a partial function, so that not returning is the value \<open>None\<close>.
\<close>

subsection \<open>Data\<close>

type_synonym cell = "int \<times> int"

datatype action = U | D | L | R

datatype error = KeyError cell | SentinelStored

record grid =
  gridSize :: int
  startPos :: cell
  goalPos :: cell
  obstacles :: "cell list"

record response =
  policy :: "int \<rightharpoonup> action"
  qValues :: "int \<rightharpoonup> real"
  path :: "int list"
  reachable :: bool

definition actions :: "action list" where
  "actions = [U, D, L, R]"

definition gamma :: real where
  "gamma = 9 / 10"

definition threshold :: real where
  "threshold = 1 / 1000"

definition max_iterations :: nat where
  "max_iterations = 1000"

subsection \<open>State space and transition model\<close>

text \<open>Lines 36-40: the non-obstacle cells in row-major order.\<close>

definition valid_states :: "int \<Rightarrow> cell set \<Rightarrow> cell list" where
  "valid_states n obstacle_set =
     [(r, c). r \<leftarrow> [0..n - 1], c \<leftarrow> [0..n - 1], (r, c) \<notin> obstacle_set]"

definition is_valid :: "int \<Rightarrow> cell set \<Rightarrow> int \<Rightarrow> int \<Rightarrow> bool" where
  "is_valid n obstacle_set r c \<longleftrightarrow>
     0 \<le> r \<and> r < n \<and> 0 \<le> c \<and> c < n \<and> (r, c) \<notin> obstacle_set"

text \<open>The chain \<^verbatim>\<open>if a == 'U': r -= 1 elif a == 'D': r += 1 ...\<close> of lines 52-55 and 171-174.\<close>

fun move :: "cell \<Rightarrow> action \<Rightarrow> cell" where
  "move (r, c) U = (r - 1, c)"
| "move (r, c) D = (r + 1, c)"
| "move (r, c) L = (r, c - 1)"
| "move (r, c) R = (r, c + 1)"

definition step :: "int \<Rightarrow> cell set \<Rightarrow> cell \<Rightarrow> cell \<Rightarrow> action \<Rightarrow> cell \<times> real" where
  "step n obstacle_set goalState state a =
     (if state = goalState then (state, 0)
      else (case move state a of (r, c) \<Rightarrow>
        if \<not> is_valid n obstacle_set r c then (state, - 1)
        else if (r, c) = goalState then ((r, c), 1)
        else ((r, c), 0)))"

subsection \<open>Value iteration\<close>

text \<open>Lines 67-69.\<close>

fun init_V :: "cell list \<Rightarrow> (cell \<rightharpoonup> real) \<Rightarrow> (cell \<rightharpoonup> real)" where
  "init_V [] V = V"
| "init_V (s # ss) V = init_V ss (V(s \<mapsto> 0))"

text \<open>The comparison \<^verbatim>\<open>candidate_value > best_action_value\<close> against a best that may
  still be the sentinel.\<close>

fun exceeds :: "real \<Rightarrow> real option \<Rightarrow> bool" where
  "exceeds x None = True"
| "exceeds x (Some b) = (x > b)"

text \<open>Lines 87-91: the loop over the actions, for one state.\<close>

fun best_action_value_loop ::
  "int \<Rightarrow> cell set \<Rightarrow> cell \<Rightarrow> (cell \<rightharpoonup> real) \<Rightarrow> cell \<Rightarrow> action list \<Rightarrow> real option
     \<Rightarrow> error + real option" where
  "best_action_value_loop n obs goal V s [] best = Inr best"
| "best_action_value_loop n obs goal V s (a # as) best =
     (case step n obs goal s a of (nxt, reward) \<Rightarrow>
        (case V nxt of
           None \<Rightarrow> Inl (KeyError nxt)
         | Some v \<Rightarrow>
             (let candidate_value = reward + gamma * v
              in best_action_value_loop n obs goal V s as
                   (if exceeds candidate_value best then Some candidate_value else best))))"

text \<open>Lines 79-95: one round over the states, reading \<open>V\<close> and writing \<open>new_V\<close>.\<close>

fun states_loop ::
  "int \<Rightarrow> cell set \<Rightarrow> cell \<Rightarrow> (cell \<rightharpoonup> real) \<Rightarrow> cell list \<Rightarrow> (cell \<rightharpoonup> real) \<Rightarrow> real
     \<Rightarrow> error + ((cell \<rightharpoonup> real) \<times> real)" where
  "states_loop n obs goal V [] new_V delta = Inr (new_V, delta)"
| "states_loop n obs goal V (s # ss) new_V delta =
     (if s = goal then states_loop n obs goal V ss (new_V(s \<mapsto> 0)) delta
      else
        (case best_action_value_loop n obs goal V s actions None of
           Inl e \<Rightarrow> Inl e
         | Inr None \<Rightarrow> Inl SentinelStored
         | Inr (Some b) \<Rightarrow>
             (case V s of
                None \<Rightarrow> Inl (KeyError s)
              | Some old \<Rightarrow>
                  states_loop n obs goal V ss (new_V(s \<mapsto> b)) (max delta \<bar>b - old\<bar>))))"

text \<open>Lines 76-100: at most \<open>k\<close> rounds, leaving early when \<open>delta < threshold\<close>.\<close>

fun value_iteration_loop ::
  "nat \<Rightarrow> int \<Rightarrow> cell set \<Rightarrow> cell \<Rightarrow> cell list \<Rightarrow> (cell \<rightharpoonup> real) \<Rightarrow> error + (cell \<rightharpoonup> real)" where
  "value_iteration_loop 0 n obs goal vs V = Inr V"
| "value_iteration_loop (Suc k) n obs goal vs V =
     (case states_loop n obs goal V vs Map.empty 0 of
        Inl e \<Rightarrow> Inl e
      | Inr (new_V, delta) \<Rightarrow>
          if delta < threshold then Inr new_V
          else value_iteration_loop k n obs goal vs new_V)"

definition value_iteration :: "int \<Rightarrow> cell set \<Rightarrow> cell \<Rightarrow> error + (cell \<rightharpoonup> real)" where
  "value_iteration n obs goal =
     (let vs = valid_states n obs
      in value_iteration_loop max_iterations n obs goal vs (init_V vs Map.empty))"

subsection \<open>Policy and Q-value extraction\<close>

text \<open>Lines 115-120: the loop over the actions that also records the action.\<close>

fun best_action_loop ::
  "int \<Rightarrow> cell set \<Rightarrow> cell \<Rightarrow> (cell \<rightharpoonup> real) \<Rightarrow> cell \<Rightarrow> action list
     \<Rightarrow> action option \<Rightarrow> real option \<Rightarrow> error + (action option \<times> real option)" where
  "best_action_loop n obs goal V s [] best_a best_value = Inr (best_a, best_value)"
| "best_action_loop n obs goal V s (a # as) best_a best_value =
     (case step n obs goal s a of (nxt, reward) \<Rightarrow>
        (case V nxt of
           None \<Rightarrow> Inl (KeyError nxt)
         | Some v \<Rightarrow>
             (let val = reward + gamma * v
              in if exceeds val best_value
                 then best_action_loop n obs goal V s as (Some a) (Some val)
                 else best_action_loop n obs goal V s as best_a best_value)))"

text \<open>Lines 104-123.\<close>

fun extract_loop ::
  "int \<Rightarrow> cell set \<Rightarrow> cell \<Rightarrow> (cell \<rightharpoonup> real) \<Rightarrow> cell list
     \<Rightarrow> (cell \<rightharpoonup> action) \<Rightarrow> (cell \<rightharpoonup> real)
     \<Rightarrow> error + ((cell \<rightharpoonup> action) \<times> (cell \<rightharpoonup> real))" where
  "extract_loop n obs goal V [] pol qv = Inr (pol, qv)"
| "extract_loop n obs goal V (s # ss) pol qv =
     (if s = goal then extract_loop n obs goal V ss pol (qv(s \<mapsto> 0))
      else
        (case best_action_loop n obs goal V s actions None None of
           Inl e \<Rightarrow> Inl e
         | Inr (Some a, Some v) \<Rightarrow> extract_loop n obs goal V ss (pol(s \<mapsto> a)) (qv(s \<mapsto> v))
         | Inr _ \<Rightarrow> Inl SentinelStored))"

subsection \<open>Index conversion\<close>

text \<open>Lines 126-131: every cell of the square gets the next value of the counter.\<close>

fun idx_loop :: "cell list \<Rightarrow> (cell \<rightharpoonup> int) \<Rightarrow> int \<Rightarrow> (cell \<rightharpoonup> int)" where
  "idx_loop [] idx_map idx_counter = idx_map"
| "idx_loop (s # ss) idx_map idx_counter =
     idx_loop ss (idx_map(s \<mapsto> idx_counter)) (idx_counter + 1)"

definition build_idx_map :: "int \<Rightarrow> (cell \<rightharpoonup> int)" where
  "build_idx_map n = idx_loop [(r, c). r \<leftarrow> [0..n - 1], c \<leftarrow> [0..n - 1]] Map.empty 1"

text \<open>Lines 134-143.\<close>

fun index_loop ::
  "cell \<Rightarrow> (cell \<rightharpoonup> int) \<Rightarrow> (cell \<rightharpoonup> action) \<Rightarrow> (cell \<rightharpoonup> real) \<Rightarrow> cell list
     \<Rightarrow> (int \<rightharpoonup> action) \<Rightarrow> (int \<rightharpoonup> real)
     \<Rightarrow> error + ((int \<rightharpoonup> action) \<times> (int \<rightharpoonup> real))" where
  "index_loop goal idx_map pol qv [] policy_idx qValues_idx = Inr (policy_idx, qValues_idx)"
| "index_loop goal idx_map pol qv (s # ss) policy_idx qValues_idx =
     (case idx_map s of
        None \<Rightarrow> Inl (KeyError s)
      | Some s_idx \<Rightarrow>
          if s = goal
          then index_loop goal idx_map pol qv ss policy_idx (qValues_idx(s_idx \<mapsto> 0))
          else
            (case pol s of
               None \<Rightarrow> Inl (KeyError s)
             | Some a \<Rightarrow>
                 (case qv s of
                    None \<Rightarrow> Inl (KeyError s)
                  | Some q \<Rightarrow>
                      index_loop goal idx_map pol qv ss
                        (policy_idx(s_idx \<mapsto> a)) (qValues_idx(s_idx \<mapsto> q)))))"

subsection \<open>Path walk\<close>

definition valid_for_path :: "int \<Rightarrow> cell set \<Rightarrow> int \<Rightarrow> int \<Rightarrow> bool" where
  "valid_for_path n obstacle_set r c \<longleftrightarrow>
     0 \<le> r \<and> r < n \<and> 0 \<le> c \<and> c < n \<and> (r, c) \<notin> obstacle_set"

text \<open>Lines 154-178. The two reads \<^verbatim>\<open>idx_map[current]\<close> of one round are one lookup here.
  The result is the pair \<open>(path, reachable)\<close>.\<close>

partial_function (option) walk ::
  "int \<Rightarrow> cell set \<Rightarrow> cell \<Rightarrow> (cell \<rightharpoonup> int) \<Rightarrow> (int \<rightharpoonup> action)
     \<Rightarrow> int list \<Rightarrow> cell set \<Rightarrow> cell \<Rightarrow> (error + (int list \<times> bool)) option" where
  "walk n obs goal idx_map policy_idx pth visited current =
     (case idx_map current of
        None \<Rightarrow> Some (Inl (KeyError current))
      | Some c_idx \<Rightarrow>
          if current = goal then Some (Inr (pth @ [c_idx], True))
          else if current \<in> visited then Some (Inr (pth @ [c_idx], False))
          else
            (case policy_idx c_idx of
               None \<Rightarrow> Some (Inr (pth @ [c_idx], False))
             | Some a \<Rightarrow>
                 if \<not> valid_for_path n obs (fst (move current a)) (snd (move current a))
                 then Some (Inr (pth @ [c_idx], False))
                 else walk n obs goal idx_map policy_idx (pth @ [c_idx])
                        (insert current visited) (move current a)))"

declare walk.simps [code]

subsection \<open>The handler\<close>

definition train :: "grid \<Rightarrow> (error + response) option" where
  "train data =
     (let n = gridSize data;
          obstacle_set = set (obstacles data);
          startState = startPos data;
          goalState = goalPos data;
          vs = valid_states n obstacle_set
      in case value_iteration n obstacle_set goalState of
           Inl e \<Rightarrow> Some (Inl e)
         | Inr V \<Rightarrow>
             (case extract_loop n obstacle_set goalState V vs Map.empty Map.empty of
                Inl e \<Rightarrow> Some (Inl e)
              | Inr (pol, qv) \<Rightarrow>
                  (let idx_map = build_idx_map n
                   in case index_loop goalState idx_map pol qv vs Map.empty Map.empty of
                        Inl e \<Rightarrow> Some (Inl e)
                      | Inr (policy_idx, qValues_idx) \<Rightarrow>
                          (case walk n obstacle_set goalState idx_map policy_idx [] {} startState of
                             None \<Rightarrow> None
                           | Some (Inl e) \<Rightarrow> Some (Inl e)
                           | Some (Inr (pth, reached)) \<Rightarrow>
                               Some (Inr \<lparr>policy = policy_idx, qValues = qValues_idx,
                                          path = pth, reachable = reached\<rparr>)))))"

section \<open>The specification's notions\<close>

text \<open>The notions the properties are stated with. \<open>step_spec\<close>, \<open>bellman\<close>, \<open>delta_of\<close>
  and \<open>V_round\<close> follow the words of the specification, not the code; the theorems below
  compare the two.\<close>

definition in_bounds :: "int \<Rightarrow> cell \<Rightarrow> bool" where
  "in_bounds n s \<longleftrightarrow> 0 \<le> fst s \<and> fst s < n \<and> 0 \<le> snd s \<and> snd s < n"

text \<open>The unit offset of an action on \<open>(row, col)\<close>.\<close>

fun offset :: "action \<Rightarrow> int \<times> int" where
  "offset U = (- 1, 0)"
| "offset D = (1, 0)"
| "offset L = (0, - 1)"
| "offset R = (0, 1)"

text \<open>The contract of \<open>step\<close>, section 4.2 of the specification.\<close>

definition step_spec :: "int \<Rightarrow> cell set \<Rightarrow> cell \<Rightarrow> cell \<Rightarrow> action \<Rightarrow> cell \<times> real" where
  "step_spec n obstacle_set goal state a =
     (let neighbor = (fst state + fst (offset a), snd state + snd (offset a));
          out_of_bounds =
            (fst neighbor < 0 \<or> n \<le> fst neighbor \<or> snd neighbor < 0 \<or> n \<le> snd neighbor)
      in if state = goal then (goal, 0)
         else if out_of_bounds \<or> neighbor \<in> obstacle_set then (state, - 1)
         else if neighbor = goal then (goal, 1)
         else (neighbor, 0))"

text \<open>The value of an action under a value function \<open>W\<close>: reward plus 0.9 times the
  value of the next state.\<close>

definition q_value :: "int \<Rightarrow> cell set \<Rightarrow> cell \<Rightarrow> (cell \<Rightarrow> real) \<Rightarrow> cell \<Rightarrow> action \<Rightarrow> real" where
  "q_value n obs goal W s a =
     snd (step n obs goal s a) + 9 / 10 * W (fst (step n obs goal s a))"

text \<open>One synchronous Bellman update: the goal is forced to 0, every other state takes the
  maximum over the four actions, all read from the previous \<open>W\<close>.\<close>

definition bellman :: "int \<Rightarrow> cell set \<Rightarrow> cell \<Rightarrow> (cell \<Rightarrow> real) \<Rightarrow> cell \<Rightarrow> real" where
  "bellman n obs goal W s =
     (if s = goal then 0 else Max (q_value n obs goal W s ` {U, D, L, R}))"

text \<open>A value function as the dictionary whose keys are the listed states.\<close>

definition as_map :: "cell list \<Rightarrow> (cell \<Rightarrow> real) \<Rightarrow> (cell \<rightharpoonup> real)" where
  "as_map vs W = (\<lambda>s. if s \<in> set vs then Some (W s) else None)"

text \<open>The largest change of a round over the listed states (0 when there is none).\<close>

definition delta_of :: "cell list \<Rightarrow> (cell \<Rightarrow> real) \<Rightarrow> (cell \<Rightarrow> real) \<Rightarrow> real" where
  "delta_of vs W W' = (if vs = [] then 0 else Max ((\<lambda>s. \<bar>W' s - W s\<bar>) ` set vs))"

text \<open>The value function after \<open>k\<close> rounds, and the change measured in round \<open>k\<close>.\<close>

fun V_round :: "int \<Rightarrow> cell set \<Rightarrow> cell \<Rightarrow> nat \<Rightarrow> cell \<Rightarrow> real" where
  "V_round n obs goal 0 = (\<lambda>s. 0)"
| "V_round n obs goal (Suc k) = bellman n obs goal (V_round n obs goal k)"

definition round_delta :: "int \<Rightarrow> cell set \<Rightarrow> cell \<Rightarrow> nat \<Rightarrow> real" where
  "round_delta n obs goal k =
     delta_of (valid_states n obs) (V_round n obs goal (k - 1)) (V_round n obs goal k)"


text \<open>The earliest action in that order whose value is maximal.\<close>

definition first_best :: "(action \<Rightarrow> real) \<Rightarrow> action" where
  "first_best q =
     (if q D \<le> q U \<and> q L \<le> q U \<and> q R \<le> q U then U
      else if q L \<le> q D \<and> q R \<le> q D then D
      else if q R \<le> q L then L
      else R)"

text \<open>A list of cells is a trace of the greedy walk: every cell but the last is not the
  goal, has an index and a policy entry, and is followed by the cell its action leads to,
  which is inside the grid and not an obstacle.\<close>

fun follows ::
  "int \<Rightarrow> cell set \<Rightarrow> cell \<Rightarrow> (cell \<rightharpoonup> int) \<Rightarrow> (int \<rightharpoonup> action) \<Rightarrow> cell list \<Rightarrow> bool" where
  "follows n obs goal idx pol (c # c' # cs) \<longleftrightarrow>
     c \<noteq> goal
     \<and> (case idx c of
          None \<Rightarrow> False
        | Some i \<Rightarrow>
            (case pol i of
               None \<Rightarrow> False
             | Some a \<Rightarrow> c' = move c a \<and> valid_for_path n obs (fst c') (snd c')))
     \<and> follows n obs goal idx pol (c' # cs)"
| "follows n obs goal idx pol cs \<longleftrightarrow> True"

text \<open>The index-keyed dictionaries of the response hold, for the value function \<open>W\<close>, the
  greedy action of every non-goal state and the updated value of every state, and nothing
  else.\<close>

definition indexed ::
  "int \<Rightarrow> cell set \<Rightarrow> cell \<Rightarrow> (cell \<Rightarrow> real) \<Rightarrow> (int \<rightharpoonup> action) \<Rightarrow> (int \<rightharpoonup> real) \<Rightarrow> bool" where
  "indexed n obs goal W pix qix \<longleftrightarrow>
     (\<forall>s\<in>set (valid_states n obs). \<forall>i. build_idx_map n s = Some i \<longrightarrow>
        pix i = (if s = goal then None else Some (first_best (q_value n obs goal W s)))
        \<and> qix i = Some (bellman n obs goal W s))
     \<and> (\<forall>i. (\<forall>s\<in>set (valid_states n obs). build_idx_map n s \<noteq> Some i) \<longrightarrow>
            pix i = None \<and> qix i = None)"

text \<open>The Manhattan distance, and a list of cells in which every step is a Down or a Right
  move that brings the cell strictly closer to the goal.\<close>

fun manhattan :: "cell \<Rightarrow> cell \<Rightarrow> int" where
  "manhattan (r, c) (r', c') = \<bar>r - r'\<bar> + \<bar>c - c'\<bar>"

fun down_right_steps :: "cell \<Rightarrow> cell list \<Rightarrow> bool" where
  "down_right_steps goal (c # c' # cs) \<longleftrightarrow>
     (c' = move c D \<or> c' = move c R)
     \<and> manhattan c' goal < manhattan c goal
     \<and> down_right_steps goal (c' # cs)"
| "down_right_steps goal cs \<longleftrightarrow> True"

section \<open>Concrete inputs\<close>

text \<open>The path and the flag of a response, or the error.\<close>

definition outcome :: "(error + response) option \<Rightarrow> (error + int list \<times> bool) option" where
  "outcome r = map_option (map_sum id (\<lambda>res. (path res, reachable res))) r"

text \<open>A 2 by 2 grid without obstacles, from corner to corner.\<close>

definition small_grid :: grid where
  "small_grid = \<lparr>gridSize = 2, startPos = (0, 0), goalPos = (1, 1), obstacles = []\<rparr>"

text \<open>The 3 by 3 grid without obstacles, from corner to corner.\<close>

definition corner_grid :: grid where
  "corner_grid = \<lparr>gridSize = 3, startPos = (0, 0), goalPos = (2, 2), obstacles = []\<rparr>"


text \<open>A 2 by 2 grid whose goal lies outside, and a grid of size 0.\<close>

definition outside_goal_grid :: grid where
  "outside_goal_grid = \<lparr>gridSize = 2, startPos = (0, 0), goalPos = (5, 5), obstacles = []\<rparr>"

definition empty_grid :: grid where
  "empty_grid = \<lparr>gridSize = 0, startPos = (0, 0), goalPos = (0, 0), obstacles = []\<rparr>"

section \<open>Properties\<close>

subsection \<open>The state space\<close>

lemma set_valid_states:
  "set (valid_states n obs) = {s. is_valid n obs (fst s) (snd s)}"
  by (auto simp: valid_states_def is_valid_def)

lemma valid_states_filter:
  "valid_states n obs = filter (\<lambda>s. s \<notin> obs) (List.product [0..n - 1] [0..n - 1])"
proof -
  have "[(r, c). r \<leftarrow> xs, c \<leftarrow> ys, (r, c) \<notin> obs] = filter (\<lambda>s. s \<notin> obs) (List.product xs ys)"
    for xs ys :: "int list"
  proof (induction xs)
    case (Cons x xs)
    have "concat (map (\<lambda>c. if (x, c) \<notin> obs then [(x, c)] else []) ys)
          = filter (\<lambda>s. s \<notin> obs) (map (Pair x) ys)"
      by (induction ys) simp_all
    with Cons show ?case by simp
  qed simp
  then show ?thesis by (simp add: valid_states_def)
qed

lemma distinct_valid_states: "distinct (valid_states n obs)"
  by (simp add: valid_states_filter distinct_product)

lemma step_stays_valid:
  "s \<in> set (valid_states n obs) \<Longrightarrow> fst (step n obs goal s a) \<in> set (valid_states n obs)"
  by (cases "move s a") (auto simp: step_def set_valid_states)

subsection \<open>The transition model\<close>

text \<open>
  Claim C1. For every state and action, \<open>step\<close> returns \<open>(goal, 0)\<close> when the state is the
  goal, whatever the action; otherwise it applies the unit offset of the action, and returns
  \<open>(state, -1)\<close> when the neighbour is out of bounds or an obstacle, \<open>(goal, 1)\<close> when the
  neighbour is the goal, and \<open>(neighbour, 0)\<close> otherwise: the code agrees with the contract
  \<open>step_spec\<close> on every input.
\<close>

theorem step_contract:
  "step n obstacle_set goal state a = step_spec n obstacle_set goal state a"
  by (cases state; cases a) (auto simp: step_def step_spec_def is_valid_def Let_def)

subsection \<open>Value iteration\<close>

lemma init_V_eq: "init_V ss V = (\<lambda>x. if x \<in> set ss then Some 0 else V x)"
  by (induction ss arbitrary: V) (auto simp: fun_eq_iff)

lemma exceeds_update:
  "(if exceeds x best then Some x else best) = Some (case best of None \<Rightarrow> x | Some b \<Rightarrow> max b x)"
  by (cases best) auto

lemma best_action_value_loop_eq:
  assumes "\<forall>a\<in>set as. V (fst (step n obs goal s a)) = Some (W (fst (step n obs goal s a)))"
  shows "best_action_value_loop n obs goal V s as best =
    Inr (fold (\<lambda>a b. Some (case b of None \<Rightarrow> q_value n obs goal W s a
                                 | Some b \<Rightarrow> max b (q_value n obs goal W s a))) as best)"
  using assms
proof (induction as arbitrary: best)
  case Nil
  then show ?case by simp
next
  case (Cons a as)
  obtain nxt reward where st: "step n obs goal s a = (nxt, reward)"
    by (cases "step n obs goal s a")
  with Cons.prems have v: "V nxt = Some (W nxt)" by simp
  have q: "q_value n obs goal W s a = reward + gamma * W nxt"
    by (simp add: q_value_def st gamma_def)
  from Cons.prems have "\<forall>a\<in>set as. V (fst (step n obs goal s a)) = Some (W (fst (step n obs goal s a)))"
    by simp
  from Cons.IH [OF this] show ?case
    by (cases best) (simp_all add: st v exceeds_update Let_def q)
qed

lemma fold_some_max:
  fixes f :: "'a \<Rightarrow> real"
  shows "fold (\<lambda>a b. Some (case b of None \<Rightarrow> f a | Some b \<Rightarrow> max b (f a))) [u, d, l, r] None
   = Some (Max (f ` {u, d, l, r}))"
  by (simp add: max.assoc)

lemma best_action_value_loop_actions:
  assumes "\<forall>a. V (fst (step n obs goal s a)) = Some (W (fst (step n obs goal s a)))"
  shows "best_action_value_loop n obs goal V s actions None =
    Inr (Some (Max (q_value n obs goal W s ` {U, D, L, R})))"
proof -
  have "best_action_value_loop n obs goal V s actions None =
    Inr (fold (\<lambda>a b. Some (case b of None \<Rightarrow> q_value n obs goal W s a
                                 | Some b \<Rightarrow> max b (q_value n obs goal W s a))) actions None)"
    by (rule best_action_value_loop_eq) (simp add: assms)
  then show ?thesis
    by (simp only: actions_def fold_some_max)
qed

lemma states_loop_eq:
  assumes agree: "\<forall>s\<in>set vs. V s = Some (W s)"
    and closed: "\<forall>s\<in>set vs. \<forall>a. fst (step n obs goal s a) \<in> set vs"
    and sub: "set ss \<subseteq> set vs"
  shows "states_loop n obs goal V ss new_V delta =
    Inr ((\<lambda>x. if x \<in> set ss then Some (bellman n obs goal W x) else new_V x),
         fold (\<lambda>s d. if s = goal then d else max d \<bar>bellman n obs goal W s - W s\<bar>) ss delta)"
  using sub
proof (induction ss arbitrary: new_V delta)
  case Nil
  then show ?case by simp
next
  case (Cons s ss)
  then have s: "s \<in> set vs" and ss: "set ss \<subseteq> set vs" by simp_all
  show ?case
  proof (cases "s = goal")
    case True
    then show ?thesis
      using Cons.IH [OF ss] by (auto simp: bellman_def fun_eq_iff)
  next
    case False
    have "\<forall>a. V (fst (step n obs goal s a)) = Some (W (fst (step n obs goal s a)))"
      using agree closed s by blast
    then have "best_action_value_loop n obs goal V s actions None =
      Inr (Some (Max (q_value n obs goal W s ` {U, D, L, R})))"
      by (rule best_action_value_loop_actions)
    moreover have "bellman n obs goal W s = Max (q_value n obs goal W s ` {U, D, L, R})"
      using False by (simp only: bellman_def if_False)
    ultimately have "best_action_value_loop n obs goal V s actions None =
      Inr (Some (bellman n obs goal W s))"
      by simp
    moreover have "V s = Some (W s)" using agree s by blast
    ultimately show ?thesis
      using False Cons.IH [OF ss] by (auto simp: fun_eq_iff)
  qed
qed

lemma fold_delta_max:
  fixes f :: "'a \<Rightarrow> real"
  assumes "0 \<le> delta" and "f goal = 0"
  shows "fold (\<lambda>s d. if s = goal then d else max d (f s)) ss delta
         = Max (insert delta (f ` set ss))"
proof -
  have "fold (\<lambda>s d. if s = goal then d else max d (f s)) ss delta = fold max (map f ss) delta"
    using assms(1)
  proof (induction ss arbitrary: delta)
    case (Cons s ss)
    have step: "(if s = goal then delta else max delta (f s)) = max (f s) delta"
      using Cons.prems assms(2) by (simp add: max.commute)
    have "0 \<le> max (f s) delta" using Cons.prems by (simp add: le_max_iff_disj)
    from Cons.IH [OF this] show ?case
      by (simp only: fold_simps list.map step)
  qed simp
  also have "\<dots> = Max (set (delta # map f ss))"
    by (simp only: Max.set_eq_fold)
  finally show ?thesis by simp
qed

lemma sweep_eq:
  assumes "vs = valid_states n obs" and "W goal = 0"
  shows "states_loop n obs goal (as_map vs W) vs Map.empty 0 =
    Inr (as_map vs (bellman n obs goal W), delta_of vs W (bellman n obs goal W))"
proof -
  have agree: "\<forall>s\<in>set vs. as_map vs W s = Some (W s)" by (simp add: as_map_def)
  have closed: "\<forall>s\<in>set vs. \<forall>a. fst (step n obs goal s a) \<in> set vs"
    using assms(1) step_stays_valid by blast
  let ?f = "\<lambda>s. \<bar>bellman n obs goal W s - W s\<bar>"
  have f0: "?f goal = 0" by (simp add: bellman_def assms(2))
  have "fold (\<lambda>s d. if s = goal then d else max d (?f s)) vs 0 = Max (insert 0 (?f ` set vs))"
    by (rule fold_delta_max) (simp_all add: f0)
  also have "\<dots> = delta_of vs W (bellman n obs goal W)"
  proof (cases "vs = []")
    case True
    then show ?thesis by (simp add: delta_of_def)
  next
    case False
    then obtain x where "x \<in> set vs" by (cases vs) auto
    then have "?f x \<le> Max (?f ` set vs)"
      by (intro Max_ge) simp_all
    moreover have "0 \<le> ?f x" by simp
    ultimately have "0 \<le> Max (?f ` set vs)" by linarith
    then show ?thesis using False by (simp add: delta_of_def max_absorb2)
  qed
  finally have d: "fold (\<lambda>s d. if s = goal then d else max d (?f s)) vs 0
    = delta_of vs W (bellman n obs goal W)" .
  have m: "(\<lambda>x. if x \<in> set vs then Some (bellman n obs goal W x) else Map.empty x)
    = as_map vs (bellman n obs goal W)"
    by (simp add: as_map_def fun_eq_iff)
  show ?thesis
    using states_loop_eq [OF agree closed subset_refl, of Map.empty 0] by (simp only: d m)
qed

lemma V_round_goal: "V_round n obs goal k goal = 0"
  by (cases k) (simp_all add: bellman_def)

lemma value_iteration_loop_rounds:
  assumes vs: "vs = valid_states n obs"
  shows "\<exists>k\<le>m. value_iteration_loop (Suc m) n obs goal vs (as_map vs (V_round n obs goal i)) =
            Inr (as_map vs (V_round n obs goal (i + Suc k)))
          \<and> (\<forall>j<k. \<not> delta_of vs (V_round n obs goal (i + j)) (V_round n obs goal (i + Suc j)) < threshold)
          \<and> (k < m \<longrightarrow> delta_of vs (V_round n obs goal (i + k)) (V_round n obs goal (i + Suc k)) < threshold)"
proof (induction m arbitrary: i)
  case 0
  show ?case
    using sweep_eq [where W = "V_round n obs goal i" and goal = goal, OF vs V_round_goal] by simp
next
  case (Suc m)
  let ?d = "delta_of vs (V_round n obs goal i) (V_round n obs goal (Suc i))"
  have sw: "states_loop n obs goal (as_map vs (V_round n obs goal i)) vs Map.empty 0 =
    Inr (as_map vs (V_round n obs goal (Suc i)), ?d)"
    using sweep_eq [where W = "V_round n obs goal i" and goal = goal, OF vs V_round_goal] by simp
  show ?case
  proof (cases "?d < threshold")
    case True
    then show ?thesis
      by (intro exI [of _ 0]) (simp add: sw)
  next
    case False
    from Suc.IH [of "Suc i"] obtain k where k: "k \<le> m"
      and res: "value_iteration_loop (Suc m) n obs goal vs (as_map vs (V_round n obs goal (Suc i))) =
            Inr (as_map vs (V_round n obs goal (Suc i + Suc k)))"
      and before: "\<forall>j<k. \<not> delta_of vs (V_round n obs goal (Suc i + j)) (V_round n obs goal (Suc i + Suc j)) < threshold"
      and last: "k < m \<longrightarrow> delta_of vs (V_round n obs goal (Suc i + k)) (V_round n obs goal (Suc i + Suc k)) < threshold"
      by blast
    have 1: "value_iteration_loop (Suc (Suc m)) n obs goal vs (as_map vs (V_round n obs goal i)) =
            Inr (as_map vs (V_round n obs goal (i + Suc (Suc k))))"
      using False res by (simp add: sw del: V_round.simps value_iteration_loop.simps(2))
         (simp add: sw False)
    have 2: "\<forall>j<Suc k. \<not> delta_of vs (V_round n obs goal (i + j)) (V_round n obs goal (i + Suc j)) < threshold"
    proof (intro allI impI)
      fix j assume "j < Suc k"
      show "\<not> delta_of vs (V_round n obs goal (i + j)) (V_round n obs goal (i + Suc j)) < threshold"
      proof (cases j)
        case 0
        then show ?thesis using False by simp
      next
        case (Suc j')
        with \<open>j < Suc k\<close> have "j' < k" by simp
        with before show ?thesis by (simp add: Suc del: V_round.simps)
      qed
    qed
    have 3: "Suc k < Suc m \<longrightarrow> delta_of vs (V_round n obs goal (i + Suc k)) (V_round n obs goal (i + Suc (Suc k))) < threshold"
      using last by (simp del: V_round.simps)
    from k 1 2 3 show ?thesis
      by (intro exI [of _ "Suc k"]) (simp del: V_round.simps value_iteration_loop.simps)
  qed
qed

text \<open>
  Claim C2. Value iteration runs \<open>k\<close> rounds for some \<open>k\<close> between 1 and 1000 and returns,
  without error, the value function of round \<open>k\<close>; each round is the synchronous update
  \<open>bellman\<close> of the previous round's values (the maximum over the actions of reward plus
  0.9 times the old value of the next state, the goal forced to 0); in no earlier round was
  the largest change below 1/1000, and when \<open>k\<close> is below 1000 the largest change of round
  \<open>k\<close> is below 1/1000.
\<close>

theorem value_iteration_rounds:
  "\<exists>k. 1 \<le> k \<and> k \<le> 1000
     \<and> value_iteration n obs goal = Inr (as_map (valid_states n obs) (V_round n obs goal k))
     \<and> (\<forall>j. 1 \<le> j \<and> j < k \<longrightarrow> \<not> round_delta n obs goal j < 1 / 1000)
     \<and> (k < 1000 \<longrightarrow> round_delta n obs goal k < 1 / 1000)"
proof -
  have init: "init_V (valid_states n obs) Map.empty = as_map (valid_states n obs) (V_round n obs goal 0)"
    by (simp add: init_V_eq as_map_def fun_eq_iff)
  from value_iteration_loop_rounds [OF refl, of 999 n obs goal 0]
  obtain k where k: "k \<le> 999"
    and res: "value_iteration_loop (Suc 999) n obs goal (valid_states n obs)
        (as_map (valid_states n obs) (V_round n obs goal 0)) =
            Inr (as_map (valid_states n obs) (V_round n obs goal (Suc k)))"
    and before: "\<forall>j<k. \<not> delta_of (valid_states n obs) (V_round n obs goal j) (V_round n obs goal (Suc j)) < threshold"
    and last: "k < 999 \<longrightarrow> delta_of (valid_states n obs) (V_round n obs goal k) (V_round n obs goal (Suc k)) < threshold"
    by (auto simp del: V_round.simps value_iteration_loop.simps)
  have "value_iteration n obs goal = Inr (as_map (valid_states n obs) (V_round n obs goal (Suc k)))"
    using res by (simp add: value_iteration_def max_iterations_def init Let_def del: V_round.simps value_iteration_loop.simps)
  moreover have "\<forall>j. 1 \<le> j \<and> j < Suc k \<longrightarrow> \<not> round_delta n obs goal j < 1 / 1000"
  proof (intro allI impI)
    fix j assume "1 \<le> j \<and> j < Suc k"
    then obtain j' where "j = Suc j'" "j' < k" by (cases j) auto
    with before show "\<not> round_delta n obs goal j < 1 / 1000"
      by (simp add: round_delta_def threshold_def del: V_round.simps)
  qed
  moreover have "Suc k < 1000 \<longrightarrow> round_delta n obs goal (Suc k) < 1 / 1000"
    using last by (simp add: round_delta_def threshold_def del: V_round.simps)
  ultimately show ?thesis
    using k by (intro exI [of _ "Suc k"]) (simp del: V_round.simps)
qed


lemma round_delta_small_1: "round_delta 2 {} (1, 1) 1 = 1"
  by code_simp
lemma round_delta_small_2: "round_delta 2 {} (1, 1) 2 = 9 / 10"
  by code_simp
lemma round_delta_small_3: "round_delta 2 {} (1, 1) 3 = 0"
  by code_simp

theorem value_iteration_rounds_witness:
  "value_iteration 2 {} (1, 1) = Inr (as_map (valid_states 2 {}) (V_round 2 {} (1, 1) 3))
   \<and> \<not> round_delta 2 {} (1, 1) 1 < 1 / 1000
   \<and> \<not> round_delta 2 {} (1, 1) 2 < 1 / 1000
   \<and> round_delta 2 {} (1, 1) 3 < 1 / 1000"
proof -
  from value_iteration_rounds [of 2 "{}" "(1, 1)"]
  obtain k where k: "1 \<le> k" "k \<le> 1000"
    and res: "value_iteration 2 {} (1, 1) = Inr (as_map (valid_states 2 {}) (V_round 2 {} (1, 1) k))"
    and before: "\<forall>j. 1 \<le> j \<and> j < k \<longrightarrow> \<not> round_delta 2 {} (1, 1) j < 1 / 1000"
    and last: "k < 1000 \<longrightarrow> round_delta 2 {} (1, 1) k < 1 / 1000"
    by blast
  have "\<not> 3 < k"
  proof
    assume "3 < k"
    moreover have "(1::nat) \<le> 3" by simp
    ultimately have "\<not> round_delta 2 {} (1, 1) 3 < 1 / 1000" using before by blast
    then show False unfolding round_delta_small_3 by simp
  qed
  moreover have "k \<noteq> 1"
  proof
    assume "k = 1"
    moreover have "(1::nat) < 1000" by simp
    ultimately have "round_delta 2 {} (1, 1) 1 < 1 / 1000" using last by blast
    then show False unfolding round_delta_small_1 by simp
  qed
  moreover have "k \<noteq> 2"
  proof
    assume "k = 2"
    moreover have "(2::nat) < 1000" by simp
    ultimately have "round_delta 2 {} (1, 1) 2 < 1 / 1000" using last by blast
    then show False unfolding round_delta_small_2 by simp
  qed
  ultimately have "k = 3" using k by linarith
  with res show ?thesis unfolding round_delta_small_1 round_delta_small_2 round_delta_small_3 by simp
qed

subsection \<open>Policy extraction and index conversion\<close>



lemma first_best_Max: "q (first_best q) = Max (q ` {U, D, L, R})"
  by (auto simp: first_best_def max_def)

lemma best_action_loop_Cons:
  assumes "V (fst (step n obs goal s a)) = Some (W (fst (step n obs goal s a)))"
  shows "best_action_loop n obs goal V s (a # as) best_a best_value =
    (if exceeds (q_value n obs goal W s a) best_value
     then best_action_loop n obs goal V s as (Some a) (Some (q_value n obs goal W s a))
     else best_action_loop n obs goal V s as best_a best_value)"
proof -
  obtain nxt reward where st: "step n obs goal s a = (nxt, reward)"
    by (cases "step n obs goal s a")
  with assms have v: "V nxt = Some (W nxt)" by simp
  have q: "q_value n obs goal W s a = reward + gamma * W nxt"
    by (simp add: q_value_def st gamma_def)
  show ?thesis by (simp add: st v q Let_def)
qed

lemma best_action_loop_actions:
  assumes "\<forall>a. V (fst (step n obs goal s a)) = Some (W (fst (step n obs goal s a)))"
  shows "best_action_loop n obs goal V s actions None None =
    Inr (Some (first_best (q_value n obs goal W s)),
         Some (q_value n obs goal W s (first_best (q_value n obs goal W s))))"
  unfolding actions_def
  by (simp only: best_action_loop_Cons [where W = W] assms best_action_loop.simps(1))
     (auto simp: first_best_def)

lemma extract_loop_eq:
  assumes agree: "\<forall>s\<in>set vs. V s = Some (W s)"
    and closed: "\<forall>s\<in>set vs. \<forall>a. fst (step n obs goal s a) \<in> set vs"
    and sub: "set ss \<subseteq> set vs"
  shows "extract_loop n obs goal V ss pol qv =
    Inr ((\<lambda>x. if x \<in> set ss \<and> x \<noteq> goal then Some (first_best (q_value n obs goal W x)) else pol x),
         (\<lambda>x. if x \<in> set ss then Some (bellman n obs goal W x) else qv x))"
  using sub
proof (induction ss arbitrary: pol qv)
  case Nil
  then show ?case by simp
next
  case (Cons s ss)
  then have s: "s \<in> set vs" and ss: "set ss \<subseteq> set vs" by simp_all
  show ?case
  proof (cases "s = goal")
    case True
    then show ?thesis
      using Cons.IH [OF ss] by (auto simp: bellman_def fun_eq_iff)
  next
    case False
    have "\<forall>a. V (fst (step n obs goal s a)) = Some (W (fst (step n obs goal s a)))"
      using agree closed s by blast
    then have "best_action_loop n obs goal V s actions None None =
      Inr (Some (first_best (q_value n obs goal W s)),
           Some (q_value n obs goal W s (first_best (q_value n obs goal W s))))"
      by (rule best_action_loop_actions)
    moreover have "bellman n obs goal W s =
        q_value n obs goal W s (first_best (q_value n obs goal W s))"
      using False by (simp only: bellman_def if_False first_best_Max)
    ultimately show ?thesis
      using False Cons.IH [OF ss] by (auto simp: fun_eq_iff)
  qed
qed

lemma idx_loop_notin: "x \<notin> set ss \<Longrightarrow> idx_loop ss m k x = m x"
  by (induction ss arbitrary: m k) auto

lemma idx_loop_ge: "x \<in> set ss \<Longrightarrow> \<exists>i. idx_loop ss m k x = Some i \<and> k \<le> i"
proof (induction ss arbitrary: m k)
  case Nil
  then show ?case by simp
next
  case (Cons s ss)
  show ?case
  proof (cases "x \<in> set ss")
    case True
    from Cons.IH [OF this] obtain i
      where "idx_loop ss (m(s \<mapsto> k)) (k + 1) x = Some i" and "k + 1 \<le> i"
      by blast
    then have "idx_loop (s # ss) m k x = Some i \<and> k \<le> i" by simp
    then show ?thesis by blast
  next
    case False
    with Cons.prems have "x = s" by simp
    with False show ?thesis by (simp add: idx_loop_notin)
  qed
qed

lemma idx_loop_inj:
  "distinct ss \<Longrightarrow> x \<in> set ss \<Longrightarrow> y \<in> set ss \<Longrightarrow> idx_loop ss m k x = idx_loop ss m k y
     \<Longrightarrow> x = y"
proof (induction ss arbitrary: m k)
  case Nil
  then show ?case by simp
next
  case (Cons s ss)
  then have notin: "s \<notin> set ss" and d: "distinct ss" by simp_all
  have head: "idx_loop (s # ss) m k s = Some k"
    using notin by (simp add: idx_loop_notin)
  have tail: "\<exists>i. idx_loop (s # ss) m k z = Some i \<and> k + 1 \<le> i" if "z \<in> set ss" for z
    using idx_loop_ge [OF that, of "m(s \<mapsto> k)" "k + 1"] by simp
  show ?case
  proof (cases "x = s")
    case True
    show ?thesis
    proof (cases "y = s")
      case False
      with Cons.prems have "y \<in> set ss" by simp
      from tail [OF this] head Cons.prems(4) True show ?thesis by auto
    qed (simp add: True)
  next
    case False
    with Cons.prems have x: "x \<in> set ss" by simp
    show ?thesis
    proof (cases "y = s")
      case True
      from tail [OF x] head Cons.prems(4) True show ?thesis by auto
    next
      case False
      with Cons.prems have "y \<in> set ss" by simp
      then have y: "y \<in> set ss" .
      have eq: "idx_loop ss (m(s \<mapsto> k)) (k + 1) x = idx_loop ss (m(s \<mapsto> k)) (k + 1) y"
        using Cons.prems(4) by simp
      from Cons.IH [OF d x y eq] show ?thesis .
    qed
  qed
qed

lemma set_all_cells:
  "set [(r, c). r \<leftarrow> [0..n - 1], c \<leftarrow> [0..n - 1]] = {s. in_bounds n s}"
  by (auto simp: in_bounds_def)

lemma all_cells_product: "[(r, c). r \<leftarrow> xs, c \<leftarrow> ys] = List.product xs ys"
  by (induction xs) simp_all

lemma distinct_all_cells: "distinct [(r, c). r \<leftarrow> [0..n - 1], c \<leftarrow> [0..n - 1]]"
  by (simp only: all_cells_product) (simp add: distinct_product)

lemma build_idx_map_None: "\<not> in_bounds n s \<Longrightarrow> build_idx_map n s = None"
  unfolding build_idx_map_def
  by (subst idx_loop_notin) (simp_all only: set_all_cells mem_Collect_eq not_False_eq_True)

lemma build_idx_map_Some: "in_bounds n s \<Longrightarrow> \<exists>i. build_idx_map n s = Some i"
  unfolding build_idx_map_def
  using idx_loop_ge [of s "[(r, c). r \<leftarrow> [0..n - 1], c \<leftarrow> [0..n - 1]]" Map.empty 1]
  by (simp only: set_all_cells mem_Collect_eq) blast

lemma build_idx_map_inj:
  "in_bounds n s \<Longrightarrow> in_bounds n t \<Longrightarrow> build_idx_map n s = build_idx_map n t \<Longrightarrow> s = t"
  unfolding build_idx_map_def
  using idx_loop_inj [OF distinct_all_cells, of s n t Map.empty 1]
  by (simp only: set_all_cells mem_Collect_eq)

lemma valid_states_in_bounds: "s \<in> set (valid_states n obs) \<Longrightarrow> in_bounds n s"
  by (simp add: set_valid_states is_valid_def in_bounds_def)

lemma index_loop_props:
  assumes inj: "\<forall>s\<in>set vs. \<forall>t\<in>set vs. idx s = idx t \<longrightarrow> s = t"
    and tot: "\<forall>s\<in>set vs. idx s \<noteq> None"
    and pol: "\<forall>s\<in>set vs. s \<noteq> goal \<longrightarrow> pol s \<noteq> None"
    and qv: "\<forall>s\<in>set vs. s \<noteq> goal \<longrightarrow> qv s \<noteq> None"
    and sub: "set ss \<subseteq> set vs"
  shows "\<exists>pi qi. index_loop goal idx pol qv ss p0 q0 = Inr (pi, qi)
    \<and> (\<forall>s\<in>set ss. \<forall>i. idx s = Some i \<longrightarrow>
          pi i = (if s = goal then p0 i else pol s) \<and> qi i = (if s = goal then Some 0 else qv s))
    \<and> (\<forall>i. (\<forall>s\<in>set ss. idx s \<noteq> Some i) \<longrightarrow> pi i = p0 i \<and> qi i = q0 i)"
  using sub
proof (induction ss arbitrary: p0 q0)
  case Nil
  then show ?case by simp
next
  case (Cons s ss)
  then have s: "s \<in> set vs" and ss: "set ss \<subseteq> set vs" by simp_all
  from tot s obtain j where j: "idx s = Some j" by auto
  have other: "idx t \<noteq> Some j" if "t \<in> set ss" "t \<noteq> s" for t
    using inj s ss that j by (metis subsetD)
  show ?case
  proof (cases "s = goal")
    case True
    from Cons.IH [OF ss, of p0 "q0(j \<mapsto> 0)"] obtain pi qi where
      res: "index_loop goal idx pol qv ss p0 (q0(j \<mapsto> 0)) = Inr (pi, qi)"
      and inn: "\<forall>t\<in>set ss. \<forall>i. idx t = Some i \<longrightarrow>
          pi i = (if t = goal then p0 i else pol t) \<and> qi i = (if t = goal then Some 0 else qv t)"
      and out: "\<forall>i. (\<forall>t\<in>set ss. idx t \<noteq> Some i) \<longrightarrow> pi i = p0 i \<and> qi i = (q0(j \<mapsto> 0)) i"
      by blast
    have "index_loop goal idx pol qv (s # ss) p0 q0 = Inr (pi, qi)"
      using res True j by simp
    moreover have "\<forall>t\<in>set (s # ss). \<forall>i. idx t = Some i \<longrightarrow>
          pi i = (if t = goal then p0 i else pol t) \<and> qi i = (if t = goal then Some 0 else qv t)"
    proof (intro ballI allI impI)
      fix t i assume t: "t \<in> set (s # ss)" and i: "idx t = Some i"
      show "pi i = (if t = goal then p0 i else pol t) \<and> qi i = (if t = goal then Some 0 else qv t)"
      proof (cases "t \<in> set ss")
        case True
        with inn i show ?thesis by blast
      next
        case False
        with t have ts: "t = s" by simp
        with i j have ij: "i = j" by simp
        have "\<forall>u\<in>set ss. idx u \<noteq> Some j" using other False ts by blast
        with out ij have "pi i = p0 i \<and> qi i = Some 0" by simp
        with ts True show ?thesis by simp
      qed
    qed
    moreover have "\<forall>i. (\<forall>t\<in>set (s # ss). idx t \<noteq> Some i) \<longrightarrow> pi i = p0 i \<and> qi i = q0 i"
      using out j by auto
    ultimately show ?thesis by blast
  next
    case False
    from pol s False obtain a where a: "pol s = Some a" by auto
    from qv s False obtain q where q: "qv s = Some q" by auto
    from Cons.IH [OF ss, of "p0(j \<mapsto> a)" "q0(j \<mapsto> q)"] obtain pi qi where
      res: "index_loop goal idx pol qv ss (p0(j \<mapsto> a)) (q0(j \<mapsto> q)) = Inr (pi, qi)"
      and inn: "\<forall>t\<in>set ss. \<forall>i. idx t = Some i \<longrightarrow>
          pi i = (if t = goal then (p0(j \<mapsto> a)) i else pol t) \<and> qi i = (if t = goal then Some 0 else qv t)"
      and out: "\<forall>i. (\<forall>t\<in>set ss. idx t \<noteq> Some i) \<longrightarrow> pi i = (p0(j \<mapsto> a)) i \<and> qi i = (q0(j \<mapsto> q)) i"
      by blast
    have "index_loop goal idx pol qv (s # ss) p0 q0 = Inr (pi, qi)"
      using res False j a q by simp
    moreover have "\<forall>t\<in>set (s # ss). \<forall>i. idx t = Some i \<longrightarrow>
          pi i = (if t = goal then p0 i else pol t) \<and> qi i = (if t = goal then Some 0 else qv t)"
    proof (intro ballI allI impI)
      fix t i assume t: "t \<in> set (s # ss)" and i: "idx t = Some i"
      show "pi i = (if t = goal then p0 i else pol t) \<and> qi i = (if t = goal then Some 0 else qv t)"
      proof (cases "t \<in> set ss")
        case True
        show ?thesis
        proof (cases "t = goal")
          case tg: True
          then have "t \<noteq> s" using False by simp
          from other [OF True this] i have "i \<noteq> j" by auto
          with inn True i tg show ?thesis by auto
        next
          case False
          with inn True i show ?thesis by auto
        qed
      next
        case nin: False
        with t have ts: "t = s" by simp
        with i j have ij: "i = j" by simp
        have "\<forall>u\<in>set ss. idx u \<noteq> Some j" using other nin ts by blast
        with out ij have "pi i = Some a \<and> qi i = Some q" by simp
        with ts False a q show ?thesis by simp
      qed
    qed
    moreover have "\<forall>i. (\<forall>t\<in>set (s # ss). idx t \<noteq> Some i) \<longrightarrow> pi i = p0 i \<and> qi i = q0 i"
      using out j by auto
    ultimately show ?thesis by blast
  qed
qed

subsection \<open>The path walk and the handler\<close>

lemma finite_in_bounds: "finite {s. in_bounds n s}"
proof -
  have "{s. in_bounds n s} \<subseteq> {0..n} \<times> {0..n}"
    by (auto simp: in_bounds_def)
  then show ?thesis by (rule finite_subset) simp
qed

lemma valid_for_path_in_bounds: "valid_for_path n obs (fst s) (snd s) \<Longrightarrow> in_bounds n s"
  by (simp add: valid_for_path_def in_bounds_def)

lemma walk_returns_within:
  assumes fin: "finite C"
    and val: "\<forall>s. valid_for_path n obs (fst s) (snd s) \<longrightarrow> s \<in> C"
  shows "current \<in> C \<Longrightarrow> \<exists>res. walk n obs goal idx pol pth visited current = Some res"
proof (induction "card (C - visited)" arbitrary: pth visited current rule: less_induct)
  case less
  show ?case
  proof (cases "idx current")
    case None
    then show ?thesis by (subst walk.simps) simp
  next
    case (Some i)
    show ?thesis
    proof (cases "current = goal \<or> current \<in> visited \<or> pol i = None")
      case True
      then show ?thesis by (subst walk.simps) (auto simp: Some)
    next
      case False
      then obtain a where a: "pol i = Some a" by auto
      show ?thesis
      proof (cases "valid_for_path n obs (fst (move current a)) (snd (move current a))")
        case nv: False
        then show ?thesis using False a by (subst walk.simps) (auto simp: Some)
      next
        case v: True
        then have next_in: "move current a \<in> C" using val by blast
        have "C - insert current visited \<subset> C - visited"
          using less.prems False by blast
        then have "card (C - insert current visited) < card (C - visited)"
          using fin by (intro psubset_card_mono) simp_all
        from less.hyps [OF this next_in, of "pth @ [i]"]
        obtain res where "walk n obs goal idx pol (pth @ [i]) (insert current visited) (move current a) = Some res"
          by blast
        then show ?thesis using False a v by (subst walk.simps) (auto simp: Some)
      qed
    qed
  qed
qed

lemma walk_returns:
  "\<exists>res. walk n obs goal idx pol pth visited current = Some res"
proof -
  have "finite (insert current {s. in_bounds n s})"
    by (simp add: finite_in_bounds)
  moreover have "\<forall>s. valid_for_path n obs (fst s) (snd s) \<longrightarrow> s \<in> insert current {s. in_bounds n s}"
    by (simp add: valid_for_path_in_bounds)
  ultimately show ?thesis
    by (rule walk_returns_within) simp
qed

lemma walk_oscillation:
  assumes "a \<noteq> goal" "b \<noteq> goal" "a \<noteq> b"
    and "idx a = Some ia" "idx b = Some ib"
    and "pol ia = Some x" "pol ib = Some y"
    and "move a x = b" "move b y = a"
    and "valid_for_path n obs (fst a) (snd a)" "valid_for_path n obs (fst b) (snd b)"
  shows "walk n obs goal idx pol [] {} a = Some (Inr ([ia, ib, ia], False))"
proof -
  have 3: "walk n obs goal idx pol [ia, ib] {b, a} a = Some (Inr ([ia, ib, ia], False))"
    using assms by (subst walk.simps) simp
  have 2: "walk n obs goal idx pol [ia] {a} b = Some (Inr ([ia, ib, ia], False))"
    using assms 3 by (subst walk.simps) simp
  show ?thesis
    using assms 2 by (subst walk.simps) simp
qed


lemma walk_trace:
  assumes fin: "finite C"
    and val: "\<forall>s. valid_for_path n obs (fst s) (snd s) \<longrightarrow> s \<in> C"
    and tot: "\<forall>s\<in>C. idx s \<noteq> None"
  shows "current \<in> C \<Longrightarrow>
    \<exists>cs p. walk n obs goal idx pol pth visited current = Some (Inr (pth @ p, last cs = goal))
      \<and> cs \<noteq> [] \<and> hd cs = current \<and> follows n obs goal idx pol cs \<and> map idx cs = map Some p"
proof (induction "card (C - visited)" arbitrary: pth visited current rule: less_induct)
  case less
  from tot less.prems obtain i where Some: "idx current = Some i" by auto
  have stop: ?case
    if "walk n obs goal idx pol pth visited current = Some (Inr (pth @ [i], current = goal))"
    using that Some by (intro exI [of _ "[current]"] exI [of _ "[i]"]) simp
  show ?case
  proof (cases "current = goal \<or> current \<in> visited \<or> pol i = None")
    case True
    show ?thesis
      by (rule stop, subst walk.simps) (use True in \<open>auto simp: Some\<close>)
  next
    case False
    then obtain a where a: "pol i = Some a" by auto
    show ?thesis
    proof (cases "valid_for_path n obs (fst (move current a)) (snd (move current a))")
      case nv: False
      show ?thesis
        by (rule stop, subst walk.simps) (use False a nv in \<open>auto simp: Some\<close>)
    next
      case v: True
      then have next_in: "move current a \<in> C" using val by blast
      have "C - insert current visited \<subset> C - visited"
        using less.prems False by blast
      then have "card (C - insert current visited) < card (C - visited)"
        using fin by (intro psubset_card_mono) simp_all
      from less.hyps [OF this next_in, of "pth @ [i]"]
      obtain cs p where
        w: "walk n obs goal idx pol (pth @ [i]) (insert current visited) (move current a)
              = Some (Inr ((pth @ [i]) @ p, last cs = goal))"
        and cs: "cs \<noteq> []" "hd cs = move current a" "follows n obs goal idx pol cs"
          "map idx cs = map Some p"
        by blast
      from cs obtain cs' where cs': "cs = move current a # cs'" by (cases cs) auto
      have "walk n obs goal idx pol pth visited current
              = Some (Inr (pth @ i # p, last (current # cs) = goal))"
        using False a v w cs(1) by (subst walk.simps) (simp add: Some)
      moreover have "follows n obs goal idx pol (current # cs)"
        using False a v cs(3) by (simp add: cs' Some)
      moreover have "map idx (current # cs) = map Some (i # p)"
        using cs(4) Some by simp
      ultimately show ?thesis
        by (intro exI [of _ "current # cs"] exI [of _ "i # p"]) simp
    qed
  qed
qed

lemma value_iteration_result:
  "\<exists>k. value_iteration n obs goal = Inr (as_map (valid_states n obs) (V_round n obs goal k))"
proof -
  have init: "init_V (valid_states n obs) Map.empty = as_map (valid_states n obs) (V_round n obs goal 0)"
    by (simp add: init_V_eq as_map_def fun_eq_iff)
  from value_iteration_loop_rounds [OF refl, of 999 n obs goal 0]
  obtain k where "value_iteration_loop (Suc 999) n obs goal (valid_states n obs)
        (as_map (valid_states n obs) (V_round n obs goal 0)) =
            Inr (as_map (valid_states n obs) (V_round n obs goal (Suc k)))"
    by (auto simp del: V_round.simps value_iteration_loop.simps)
  then have "value_iteration n obs goal = Inr (as_map (valid_states n obs) (V_round n obs goal (Suc k)))"
    by (simp add: value_iteration_def max_iterations_def init Let_def
          del: V_round.simps value_iteration_loop.simps)
  then show ?thesis by blast
qed

lemma extract_result:
  "extract_loop n obs goal (as_map (valid_states n obs) W) (valid_states n obs) Map.empty Map.empty =
    Inr ((\<lambda>x. if x \<in> set (valid_states n obs) \<and> x \<noteq> goal
               then Some (first_best (q_value n obs goal W x)) else None),
         as_map (valid_states n obs) (bellman n obs goal W))"
proof -
  have agree: "\<forall>s\<in>set (valid_states n obs). as_map (valid_states n obs) W s = Some (W s)"
    by (simp add: as_map_def)
  have closed: "\<forall>s\<in>set (valid_states n obs). \<forall>a. fst (step n obs goal s a) \<in> set (valid_states n obs)"
    using step_stays_valid by blast
  show ?thesis
    using extract_loop_eq [OF agree closed subset_refl, of Map.empty Map.empty]
    by (simp add: as_map_def)
qed

lemma index_result:
  "\<exists>pix qix. index_loop goal (build_idx_map n)
       (\<lambda>x. if x \<in> set (valid_states n obs) \<and> x \<noteq> goal
             then Some (first_best (q_value n obs goal W x)) else None)
       (as_map (valid_states n obs) (bellman n obs goal W))
       (valid_states n obs) Map.empty Map.empty = Inr (pix, qix)
     \<and> indexed n obs goal W pix qix"
proof -
  let ?vs = "valid_states n obs"
  let ?pol = "\<lambda>x. if x \<in> set ?vs \<and> x \<noteq> goal
             then Some (first_best (q_value n obs goal W x)) else None"
  let ?qv = "as_map ?vs (bellman n obs goal W)"
  have inj: "\<forall>s\<in>set ?vs. \<forall>t\<in>set ?vs. build_idx_map n s = build_idx_map n t \<longrightarrow> s = t"
    using build_idx_map_inj valid_states_in_bounds by blast
  have tot: "\<forall>s\<in>set ?vs. build_idx_map n s \<noteq> None"
    using build_idx_map_Some valid_states_in_bounds by fastforce
  have pol: "\<forall>s\<in>set ?vs. s \<noteq> goal \<longrightarrow> ?pol s \<noteq> None" by simp
  have qv: "\<forall>s\<in>set ?vs. s \<noteq> goal \<longrightarrow> ?qv s \<noteq> None" by (simp add: as_map_def)
  from index_loop_props [OF inj tot pol qv subset_refl, where ?p0.0 = Map.empty and ?q0.0 = Map.empty]
  obtain pix qix where res: "index_loop goal (build_idx_map n) ?pol ?qv ?vs Map.empty Map.empty = Inr (pix, qix)"
    and inn: "\<forall>s\<in>set ?vs. \<forall>i. build_idx_map n s = Some i \<longrightarrow>
          pix i = (if s = goal then None else ?pol s) \<and> qix i = (if s = goal then Some 0 else ?qv s)"
    and out: "\<forall>i. (\<forall>s\<in>set ?vs. build_idx_map n s \<noteq> Some i) \<longrightarrow> pix i = None \<and> qix i = None"
    by auto
  have "indexed n obs goal W pix qix"
    unfolding indexed_def
  proof (intro conjI ballI allI impI)
    fix s i assume s: "s \<in> set ?vs" and i: "build_idx_map n s = Some i"
    from inn s i have 1: "pix i = (if s = goal then None else ?pol s)"
      and 2: "qix i = (if s = goal then Some 0 else ?qv s)" by blast+
    show "pix i = (if s = goal then None else Some (first_best (q_value n obs goal W s)))"
      using 1 s by simp
    show "qix i = Some (bellman n obs goal W s)"
      using 2 s by (simp add: as_map_def bellman_def)
  next
    fix i assume "\<forall>s\<in>set ?vs. build_idx_map n s \<noteq> Some i"
    with out show "pix i = None" "qix i = None" by blast+
  qed
  with res show ?thesis by blast
qed

lemma train_walk:
  "\<exists>k pix qix. indexed (gridSize data) (set (obstacles data)) (goalPos data)
        (V_round (gridSize data) (set (obstacles data)) (goalPos data) k) pix qix
     \<and> value_iteration (gridSize data) (set (obstacles data)) (goalPos data) =
           Inr (as_map (valid_states (gridSize data) (set (obstacles data)))
                  (V_round (gridSize data) (set (obstacles data)) (goalPos data) k))
     \<and> train data =
        (case walk (gridSize data) (set (obstacles data)) (goalPos data)
                (build_idx_map (gridSize data)) pix [] {} (startPos data) of
           None \<Rightarrow> None
         | Some (Inl e) \<Rightarrow> Some (Inl e)
         | Some (Inr (pth, reached)) \<Rightarrow>
             Some (Inr \<lparr>policy = pix, qValues = qix, path = pth, reachable = reached\<rparr>))"
proof -
  let ?n = "gridSize data" and ?obs = "set (obstacles data)" and ?goal = "goalPos data"
  from value_iteration_result [of ?n ?obs ?goal] obtain k where
    vi: "value_iteration ?n ?obs ?goal = Inr (as_map (valid_states ?n ?obs) (V_round ?n ?obs ?goal k))"
    by blast
  from index_result [of ?goal ?n ?obs "V_round ?n ?obs ?goal k"] obtain pix qix where
    ix: "index_loop ?goal (build_idx_map ?n)
       (\<lambda>x. if x \<in> set (valid_states ?n ?obs) \<and> x \<noteq> ?goal
             then Some (first_best (q_value ?n ?obs ?goal (V_round ?n ?obs ?goal k) x)) else None)
       (as_map (valid_states ?n ?obs) (bellman ?n ?obs ?goal (V_round ?n ?obs ?goal k)))
       (valid_states ?n ?obs) Map.empty Map.empty = Inr (pix, qix)"
    and ind: "indexed ?n ?obs ?goal (V_round ?n ?obs ?goal k) pix qix"
    by blast
  have "train data =
        (case walk ?n ?obs ?goal (build_idx_map ?n) pix [] {} (startPos data) of
           None \<Rightarrow> None
         | Some (Inl e) \<Rightarrow> Some (Inl e)
         | Some (Inr (pth, reached)) \<Rightarrow>
             Some (Inr \<lparr>policy = pix, qValues = qix, path = pth, reachable = reached\<rparr>))"
    unfolding train_def Let_def
    by (simp only: vi extract_result ix sum.case prod.case)
  with ind vi show ?thesis by blast
qed

lemma train_in_bounds:
  assumes "in_bounds (gridSize data) (startPos data)"
  shows "\<exists>k pix qix cs p.
      indexed (gridSize data) (set (obstacles data)) (goalPos data)
        (V_round (gridSize data) (set (obstacles data)) (goalPos data) k) pix qix
    \<and> value_iteration (gridSize data) (set (obstacles data)) (goalPos data) =
          Inr (as_map (valid_states (gridSize data) (set (obstacles data)))
                 (V_round (gridSize data) (set (obstacles data)) (goalPos data) k))
    \<and> train data = Some (Inr \<lparr>policy = pix, qValues = qix, path = p,
                               reachable = (last cs = goalPos data)\<rparr>)
    \<and> cs \<noteq> [] \<and> hd cs = startPos data
    \<and> follows (gridSize data) (set (obstacles data)) (goalPos data) (build_idx_map (gridSize data)) pix cs
    \<and> map (build_idx_map (gridSize data)) cs = map Some p"
proof -
  let ?n = "gridSize data" and ?obs = "set (obstacles data)" and ?goal = "goalPos data"
  from train_walk [of data] obtain k pix qix where
    ind: "indexed ?n ?obs ?goal (V_round ?n ?obs ?goal k) pix qix"
    and vi: "value_iteration ?n ?obs ?goal =
           Inr (as_map (valid_states ?n ?obs) (V_round ?n ?obs ?goal k))"
    and tr: "train data =
        (case walk ?n ?obs ?goal (build_idx_map ?n) pix [] {} (startPos data) of
           None \<Rightarrow> None
         | Some (Inl e) \<Rightarrow> Some (Inl e)
         | Some (Inr (pth, reached)) \<Rightarrow>
             Some (Inr \<lparr>policy = pix, qValues = qix, path = pth, reachable = reached\<rparr>))"
    by blast
  have val: "\<forall>s. valid_for_path ?n ?obs (fst s) (snd s) \<longrightarrow> s \<in> {s. in_bounds ?n s}"
    by (simp add: valid_for_path_in_bounds)
  have tot: "\<forall>s\<in>{s. in_bounds ?n s}. build_idx_map ?n s \<noteq> None"
    using build_idx_map_Some by fastforce
  have "startPos data \<in> {s. in_bounds ?n s}" using assms by simp
  from walk_trace [OF finite_in_bounds val tot this, of ?goal pix "[]" "{}"]
  obtain cs p where
    w: "walk ?n ?obs ?goal (build_idx_map ?n) pix [] {} (startPos data) = Some (Inr (p, last cs = ?goal))"
    and cs: "cs \<noteq> []" "hd cs = startPos data" "follows ?n ?obs ?goal (build_idx_map ?n) pix cs"
      "map (build_idx_map ?n) cs = map Some p"
    by auto
  have "train data = Some (Inr \<lparr>policy = pix, qValues = qix, path = p, reachable = (last cs = ?goal)\<rparr>)"
    by (simp add: tr w)
  with ind vi cs show ?thesis by blast
qed

lemma train_out_of_bounds:
  assumes "\<not> in_bounds (gridSize data) (startPos data)"
  shows "train data = Some (Inl (KeyError (startPos data)))"
proof -
  from train_walk [of data] obtain pix qix where
    tr: "train data =
        (case walk (gridSize data) (set (obstacles data)) (goalPos data)
                (build_idx_map (gridSize data)) pix [] {} (startPos data) of
           None \<Rightarrow> None
         | Some (Inl e) \<Rightarrow> Some (Inl e)
         | Some (Inr (pth, reached)) \<Rightarrow>
             Some (Inr \<lparr>policy = pix, qValues = qix, path = pth, reachable = reached\<rparr>))"
    by blast
  have "walk (gridSize data) (set (obstacles data)) (goalPos data)
                (build_idx_map (gridSize data)) pix [] {} (startPos data)
        = Some (Inl (KeyError (startPos data)))"
    by (subst walk.simps) (simp add: build_idx_map_None [OF assms])
  then show ?thesis by (simp add: tr)
qed

subsection \<open>Claims on the handler\<close>

text \<open>
  Claim C10. For every state of the list of valid states (the goal or not) and every action,
  the next state of \<open>step\<close> is in the list again, wherever the goal lies (also on an obstacle
  or out of bounds); so value iteration and policy extraction never miss a key: both return
  normally, and the value dictionary has exactly the valid states as keys.
\<close>

theorem step_closed:
  "(\<forall>s a. s \<in> set (valid_states n obs) \<longrightarrow> fst (step n obs goal s a) \<in> set (valid_states n obs))
   \<and> (\<exists>V pol qv. value_iteration n obs goal = Inr V
         \<and> dom V = set (valid_states n obs)
         \<and> extract_loop n obs goal V (valid_states n obs) Map.empty Map.empty = Inr (pol, qv))"
proof -
  from value_iteration_result [of n obs goal] obtain k where
    "value_iteration n obs goal = Inr (as_map (valid_states n obs) (V_round n obs goal k))"
    by blast
  moreover have "dom (as_map (valid_states n obs) (V_round n obs goal k)) = set (valid_states n obs)"
    by (auto simp: as_map_def dom_def)
  ultimately show ?thesis
    using extract_result [of n obs goal "V_round n obs goal k"] step_stays_valid [of _ n obs goal]
    by blast
qed

theorem step_closed_witness:
  "(0, 1) \<in> set (valid_states 2 {(1, 1)})
   \<and> fst (step 2 {(1, 1)} (1, 1) (0, 1) D) \<in> set (valid_states 2 {(1, 1)})
   \<and> (\<exists>V pol qv. value_iteration 2 {(1, 1)} (1, 1) = Inr V
         \<and> dom V = set (valid_states 2 {(1, 1)})
         \<and> extract_loop 2 {(1, 1)} (1, 1) V (valid_states 2 {(1, 1)}) Map.empty Map.empty = Inr (pol, qv))"
proof -
  have "(0, 1) \<in> set (valid_states 2 {(1, 1)})"
    by (simp add: set_valid_states is_valid_def)
  with step_closed [of 2 "{(1, 1)}" "(1, 1)"] show ?thesis by blast
qed



text \<open>
  Claim C4. For every grid whose goal is a non-obstacle cell within bounds (and whose start
  is within bounds), the handler returns a response in which the goal's index has the
  Q-value 0 and no policy entry, and the index of every other valid state has both a policy
  entry and a Q-value.
\<close>

theorem absorbing_goal:
  assumes "is_valid (gridSize data) (set (obstacles data)) (fst (goalPos data)) (snd (goalPos data))"
    and "in_bounds (gridSize data) (startPos data)"
  shows "\<exists>res g. train data = Some (Inr res)
     \<and> build_idx_map (gridSize data) (goalPos data) = Some g
     \<and> qValues res g = Some 0
     \<and> policy res g = None
     \<and> (\<forall>s\<in>set (valid_states (gridSize data) (set (obstacles data))). s \<noteq> goalPos data \<longrightarrow>
           (\<exists>i. build_idx_map (gridSize data) s = Some i
              \<and> policy res i \<noteq> None \<and> qValues res i \<noteq> None))"
proof -
  let ?n = "gridSize data" and ?obs = "set (obstacles data)" and ?goal = "goalPos data"
  from train_in_bounds [OF assms(2)] obtain k pix qix cs p where
    ind: "indexed ?n ?obs ?goal (V_round ?n ?obs ?goal k) pix qix"
    and tr: "train data = Some (Inr \<lparr>policy = pix, qValues = qix, path = p,
                               reachable = (last cs = ?goal)\<rparr>)"
    by blast
  have gv: "?goal \<in> set (valid_states ?n ?obs)"
    using assms(1) by (simp add: set_valid_states)
  from build_idx_map_Some [OF valid_states_in_bounds [OF gv]]
  obtain g where g: "build_idx_map ?n ?goal = Some g" by blast
  from ind gv g have "pix g = None" and "qix g = Some 0"
    unfolding indexed_def by (auto simp: bellman_def)
  moreover have "\<exists>i. build_idx_map ?n s = Some i \<and> pix i \<noteq> None \<and> qix i \<noteq> None"
    if "s \<in> set (valid_states ?n ?obs)" "s \<noteq> ?goal" for s
  proof -
    from build_idx_map_Some [OF valid_states_in_bounds [OF that(1)]]
    obtain i where i: "build_idx_map ?n s = Some i" by blast
    with ind that show ?thesis unfolding indexed_def by auto
  qed
  ultimately show ?thesis
    using g by (intro exI [of _ "\<lparr>policy = pix, qValues = qix, path = p,
                               reachable = (last cs = ?goal)\<rparr>"] exI [of _ g]) (simp add: tr)
qed

text \<open>
  Claim C6. The greedy walk returns on every input: any grid, goal, index map, policy, and any
  path, visited set and cell to continue from. When the policy sends a cell \<open>a\<close> to \<open>b\<close> and
  \<open>b\<close> back to \<open>a\<close> (neither the goal), the walk from \<open>a\<close> stops at the second visit of
  \<open>a\<close> and returns the path traced so far with \<open>reachable = False\<close>.
\<close>

theorem walk_terminates:
  "(\<exists>res. walk n obs goal idx pol pth visited current = Some res)
   \<and> (a \<noteq> goal \<and> b \<noteq> goal \<and> a \<noteq> b \<and> idx a = Some ia \<and> idx b = Some ib
        \<and> pol ia = Some x \<and> pol ib = Some y \<and> move a x = b \<and> move b y = a
        \<and> valid_for_path n obs (fst a) (snd a) \<and> valid_for_path n obs (fst b) (snd b)
      \<longrightarrow> walk n obs goal idx pol [] {} a = Some (Inr ([ia, ib, ia], False)))"
  using walk_returns [of n obs goal idx pol pth visited current]
    walk_oscillation [of a goal b idx ia ib pol x y n obs]
  by blast





theorem absorbing_goal_witness:
  "\<exists>res g. train small_grid = Some (Inr res)
     \<and> build_idx_map 2 (1, 1) = Some g
     \<and> qValues res g = Some 0
     \<and> policy res g = None
     \<and> (\<forall>s\<in>set (valid_states 2 {}). s \<noteq> (1, 1) \<longrightarrow>
           (\<exists>i. build_idx_map 2 s = Some i
              \<and> policy res i \<noteq> None \<and> qValues res i \<noteq> None))"
proof -
  have "is_valid (gridSize small_grid) (set (obstacles small_grid))
          (fst (goalPos small_grid)) (snd (goalPos small_grid))"
    by (simp add: small_grid_def is_valid_def)
  moreover have "in_bounds (gridSize small_grid) (startPos small_grid)"
    by (simp add: small_grid_def in_bounds_def)
  ultimately show ?thesis
    using absorbing_goal [of small_grid] by (simp add: small_grid_def)
qed

lemma idx_3_start: "build_idx_map 3 (0, 0) = Some 1"
  by code_simp

lemma idx_3_below: "build_idx_map 3 (1, 0) = Some 4"
  by code_simp

theorem walk_terminates_witness:
  "walk 3 {(1, 2), (2, 1)} (2, 2) (build_idx_map 3) [1 \<mapsto> D, 4 \<mapsto> U] [] {} (0, 0)
     = Some (Inr ([1, 4, 1], False))"
proof -
  have "(0, 0) \<noteq> ((2, 2) :: cell) \<and> (1, 0) \<noteq> ((2, 2) :: cell) \<and> (0, 0) \<noteq> ((1, 0) :: cell)
      \<and> build_idx_map 3 (0, 0) = Some 1 \<and> build_idx_map 3 (1, 0) = Some 4
      \<and> [1 \<mapsto> D, 4 \<mapsto> U] (1 :: int) = Some D \<and> [1 \<mapsto> D, 4 \<mapsto> U] (4 :: int) = Some U
      \<and> move (0, 0) D = (1, 0) \<and> move (1, 0) U = (0, 0)
      \<and> valid_for_path 3 {(1, 2), (2, 1)} (fst ((0, 0) :: cell)) (snd ((0, 0) :: cell))
      \<and> valid_for_path 3 {(1, 2), (2, 1)} (fst ((1, 0) :: cell)) (snd ((1, 0) :: cell))"
    by (simp add: idx_3_start idx_3_below valid_for_path_def)
  with walk_terminates [of 3 "{(1, 2), (2, 1)}" "(2, 2)" "build_idx_map 3" "[1 \<mapsto> D, 4 \<mapsto> U]"
      "[]" "{}" "(0, 0)" "(0, 0)" "(1, 0)" 1 4 D U]
  show ?thesis by blast
qed

lemma follows_avoids_goal:
  assumes H: "\<forall>c i a. idx c = Some i \<and> pol i = Some a
        \<and> valid_for_path n obs (fst (move c a)) (snd (move c a)) \<longrightarrow> move c a \<noteq> goal"
  shows "follows n obs goal idx pol cs \<Longrightarrow> cs \<noteq> [] \<Longrightarrow> hd cs \<noteq> goal \<Longrightarrow> goal \<notin> set cs"
proof (induction cs)
  case Nil
  then show ?case by simp
next
  case (Cons c cs)
  show ?case
  proof (cases cs)
    case Nil
    with Cons.prems show ?thesis by simp
  next
    case (Cons c' rest)
    with Cons.prems(1) obtain i a where "idx c = Some i" "pol i = Some a" "c' = move c a"
      "valid_for_path n obs (fst c') (snd c')" and f: "follows n obs goal idx pol (c' # rest)"
      by (auto split: option.splits)
    with H have "c' \<noteq> goal" by blast
    with Cons.IH f Cons have "goal \<notin> set cs" by simp
    with Cons.prems(3) show ?thesis by simp
  qed
qed






text \<open>
  Claim C9, as amended. The handler validates nothing. With a non-positive grid size or a
  start outside the grid it fails with the \<open>KeyError\<close> of the lookup \<open>idx_map[start]\<close> of
  the path walk (there is no \<open>InvalidInput\<close> kind); with the start within bounds and the
  goal out of bounds it returns a normal response with \<open>reachable = False\<close>.
\<close>

theorem no_input_validation:
  "(gridSize data \<le> 0 \<or> \<not> in_bounds (gridSize data) (startPos data)
      \<longrightarrow> train data = Some (Inl (KeyError (startPos data))))
   \<and> (in_bounds (gridSize data) (startPos data) \<and> \<not> in_bounds (gridSize data) (goalPos data)
      \<longrightarrow> (\<exists>res. train data = Some (Inr res) \<and> \<not> reachable res))"
proof (intro conjI impI)
  assume "gridSize data \<le> 0 \<or> \<not> in_bounds (gridSize data) (startPos data)"
  then have "\<not> in_bounds (gridSize data) (startPos data)"
    by (auto simp: in_bounds_def)
  then show "train data = Some (Inl (KeyError (startPos data)))"
    by (rule train_out_of_bounds)
next
  let ?n = "gridSize data" and ?obs = "set (obstacles data)" and ?goal = "goalPos data"
  assume a: "in_bounds ?n (startPos data) \<and> \<not> in_bounds ?n ?goal"
  then have inb: "in_bounds ?n (startPos data)" and out: "\<not> in_bounds ?n ?goal" by simp_all
  from train_in_bounds [OF inb] obtain pix qix cs p where
    tr: "train data = Some (Inr \<lparr>policy = pix, qValues = qix, path = p,
                               reachable = (last cs = ?goal)\<rparr>)"
    and cs: "cs \<noteq> []" "hd cs = startPos data"
      "follows ?n ?obs ?goal (build_idx_map ?n) pix cs"
    by blast
  have H: "\<forall>c i a. build_idx_map ?n c = Some i \<and> pix i = Some a
        \<and> valid_for_path ?n ?obs (fst (move c a)) (snd (move c a)) \<longrightarrow> move c a \<noteq> ?goal"
    using out valid_for_path_in_bounds by metis
  have "hd cs \<noteq> ?goal" using cs(2) inb out by auto
  from follows_avoids_goal [OF H cs(3) cs(1) this]
  have "last cs \<noteq> ?goal" using cs(1) last_in_set by metis
  then show "\<exists>res. train data = Some (Inr res) \<and> \<not> reachable res"
    by (simp add: tr)
qed

text \<open>
  Claim C9 as stated fails: a goal outside the grid is not rejected, the handler returns a
  path and \<open>reachable = False\<close>.
\<close>

theorem outside_goal_accepted:
  "\<not> in_bounds (gridSize outside_goal_grid) (goalPos outside_goal_grid)
   \<and> outcome (train outside_goal_grid) = Some (Inr ([1, 3, 1], False))"
proof -
  have "\<not> in_bounds (gridSize outside_goal_grid) (goalPos outside_goal_grid)"
    by (simp add: outside_goal_grid_def in_bounds_def)
  moreover have "outcome (train outside_goal_grid) = Some (Inr ([1, 3, 1], False))"
    by code_simp
  ultimately show ?thesis by blast
qed

theorem no_input_validation_witness:
  "train empty_grid = Some (Inl (KeyError (0, 0)))
   \<and> (\<exists>res. train outside_goal_grid = Some (Inr res) \<and> \<not> reachable res)"
proof -
  have "gridSize empty_grid \<le> 0" by (simp add: empty_grid_def)
  with no_input_validation [of empty_grid]
  have "train empty_grid = Some (Inl (KeyError (0, 0)))"
    by (simp add: empty_grid_def)
  moreover have "in_bounds (gridSize outside_goal_grid) (startPos outside_goal_grid)
      \<and> \<not> in_bounds (gridSize outside_goal_grid) (goalPos outside_goal_grid)"
    by (simp add: outside_goal_grid_def in_bounds_def)
  with no_input_validation [of outside_goal_grid]
  have "\<exists>res. train outside_goal_grid = Some (Inr res) \<and> \<not> reachable res"
    by blast
  ultimately show ?thesis by blast
qed

text \<open>
  Claim C5. On the 3 by 3 grid without obstacles, start \<open>(0, 0)\<close> and goal \<open>(2, 2)\<close>, the
  handler returns \<open>reachable = True\<close> and the path of the five indices 1, 4, 7, 8, 9: the
  cells \<open>(0, 0)\<close>, \<open>(1, 0)\<close>, \<open>(2, 0)\<close>, \<open>(2, 1)\<close>, \<open>(2, 2)\<close>, each reached from the one
  before by a Down or Right move that strictly decreases the Manhattan distance to the goal.
\<close>

theorem corner_grid_path:
  "outcome (train corner_grid) = Some (Inr ([1, 4, 7, 8, 9], True))
   \<and> length [1, 4, 7, 8, 9 :: int] = 5
   \<and> map (build_idx_map 3) [(0, 0), (1, 0), (2, 0), (2, 1), (2, 2)] = map Some [1, 4, 7, 8, 9]
   \<and> down_right_steps (2, 2) [(0, 0), (1, 0), (2, 0), (2, 1), (2, 2)]"
proof -
  have "outcome (train corner_grid) = Some (Inr ([1, 4, 7, 8, 9], True))"
    by code_simp
  moreover have "map (build_idx_map 3) [(0, 0), (1, 0), (2, 0), (2, 1), (2, 2)]
      = map Some [1, 4, 7, 8, 9]"
    by code_simp
  moreover have "down_right_steps (2, 2) [(0, 0), (1, 0), (2, 0), (2, 1), (2, 2)]"
    by simp
  ultimately show ?thesis by simp
qed



end
